theory Spec2Isabelle
  imports Main "HOL-Library.Multiset"
begin

section \<open>The task group of errgroup.go\<close>

text \<open>
  The package is a concurrent program: the caller submits subtasks with \<open>Go\<close> and
  \<open>TryGo\<close>, every subtask runs in a goroutine of its own, and \<open>Wait\<close> and
  \<open>Cancel\<close> join them. The model is a transition system. Its state is the \<open>group\<close>
  struct, the channels that \<open>SetLimit\<close> has allocated, and the goroutines started so
  far, each with a program counter. A schedule is a list of events: a call of the
  caller, or one step of one goroutine. Every property "at any point of any
  interleaving" is a property of all schedules.

  A call of the caller is atomic between its blocking points (there is one calling
  thread); a goroutine is interleaved at each of its statements.
\<close>

subsection \<open>Data\<close>

text \<open>A Go \<open>error\<close>: \<open>None\<close> is \<open>nil\<close>.\<close>

type_synonym goerror = "string option"

text \<open>
  A subtask \<open>f func(ctx context.Context) error\<close>. The group is opaque to what the
  subtask does; all it can observe of the group is the context, so the model takes the
  error it returns as a function of whether the context is cancelled when it returns.
  A subtask with a fixed error is a constant function.
\<close>

type_synonym subtask = "bool \<Rightarrow> goerror"

text \<open>
  The places of the goroutine body of \<open>Go\<close> and \<open>TryGo\<close>:
  \<^item> \<open>Started\<close>: spawned, \<open>f(g.ctx)\<close> has not returned;
  \<^item> \<open>Returned\<close>: \<open>f\<close> has returned \<open>ret\<close>, before \<open>if err != nil { g.errOnce.Do(...) }\<close>;
  \<^item> \<open>Deferred\<close>: at the deferred \<open>g.done()\<close>, before it reads \<open>g.sem\<close>;
  \<^item> \<open>Receiving c\<close>: \<open>g.sem\<close> was the channel \<open>c\<close>, at (or parked in) \<open><-g.sem\<close>;
  \<^item> \<open>Released\<close>: before \<open>g.wg.Done()\<close>;
  \<^item> \<open>Finished\<close>.
\<close>

datatype pc = Started | Returned | Deferred | Receiving nat | Released | Finished

record goroutine =
  task :: subtask
  pc :: pc
  ret :: goerror

text \<open>A \<open>chan token\<close>: its capacity and the number of buffered tokens (\<open>len(ch)\<close>).\<close>

record chan =
  cap :: nat
  len :: nat

text \<open>
  The struct \<open>group\<close>. \<open>cancelled\<close> is the state of \<open>ctx\<close> (its \<open>Done()\<close> channel is
  closed); \<open>wg\<close> is the counter of the \<open>sync.WaitGroup\<close>; \<open>sem\<close> is \<open>None\<close> for the nil
  channel and a reference into \<open>chans\<close> otherwise; \<open>errOnce\<close> is the done flag of the
  \<open>sync.Once\<close>.
\<close>

record group =
  cancelled :: bool
  wg :: nat
  sem :: "nat option"
  errOnce :: bool
  err :: goerror

text \<open>
  The whole system: the group, the channels allocated so far (\<open>nchans\<close> of them, the
  next \<open>make\<close> gets the reference \<open>nchans\<close>) and the goroutines in submission order.
\<close>

record sys = group +
  chans :: "nat \<Rightarrow> chan"
  nchans :: nat
  pool :: "goroutine list"

text \<open>A call blocks, panics or returns.\<close>

datatype 'a outcome = Blocks | Panics | Returns 'a

subsection \<open>Operations\<close>

text \<open>
  \<open>New(ctx)\<close>: \<open>context.WithCancel(ctx)\<close> gives a context that is cancelled at once
  when the parent already is; the argument is the parent's state.
\<close>

definition New :: "bool \<Rightarrow> sys" where
  "New parent_done =
     \<lparr>cancelled = parent_done, wg = 0, sem = None, errOnce = False, err = None,
      chans = (\<lambda>_. \<lparr>cap = 0, len = 0\<rparr>), nchans = 0, pool = []\<rparr>"

text \<open>\<open>g.cancel()\<close>: cancels the context; a second call changes nothing.\<close>

definition cancel :: "sys \<Rightarrow> sys" where
  "cancel s = s\<lparr>cancelled := True\<rparr>"

text \<open>\<open>Done()\<close>, read without blocking: whether the channel \<open>g.ctx.Done()\<close> is closed.\<close>

definition Done :: "sys \<Rightarrow> bool" where
  "Done s = cancelled s"

text \<open>\<open>len(g.sem)\<close>; the length of the nil channel is 0.\<close>

definition sem_len :: "sys \<Rightarrow> nat" where
  "sem_len s = (case sem s of None \<Rightarrow> 0 | Some c \<Rightarrow> len (chans s c))"

text \<open>
  A send on a channel without buffer completes only together with a receive: the
  first goroutine of the pool that waits in \<open><-g.sem\<close> on that channel takes the token
  and goes on. (The runtime wakes the longest waiting receiver; the waiting goroutines
  differ in nothing but their position in the pool.)
\<close>

fun handoff :: "nat \<Rightarrow> goroutine list \<Rightarrow> goroutine list option" where
  "handoff c [] = None"
| "handoff c (g # gs) =
     (if pc g = Receiving c then Some (g\<lparr>pc := Released\<rparr> # gs)
      else map_option ((#) g) (handoff c gs))"

text \<open>
  \<open>g.sem <- token{}\<close> on the channel \<open>c\<close>: \<open>None\<close> when the send cannot proceed now.
  With room in the buffer the token is buffered; with no buffer at all it needs a
  waiting receiver.
\<close>

definition send :: "nat \<Rightarrow> sys \<Rightarrow> sys option" where
  "send c s =
     (let ch = chans s c in
      if len ch < cap ch then Some (s\<lparr>chans := (chans s)(c := ch\<lparr>len := len ch + 1\<rparr>)\<rparr>)
      else if cap ch = 0 then map_option (\<lambda>p. s\<lparr>pool := p\<rparr>) (handoff c (pool s))
      else None)"

text \<open>\<open>g.wg.Add(1)\<close> and the \<open>go func() { ... }()\<close> statement.\<close>

definition wg_Add :: "sys \<Rightarrow> sys" where
  "wg_Add s = s\<lparr>wg := wg s + 1\<rparr>"

definition spawn :: "subtask \<Rightarrow> sys \<Rightarrow> sys" where
  "spawn f s = s\<lparr>pool := pool s @ [\<lparr>task = f, pc = Started, ret = None\<rparr>]\<rparr>"

text \<open>
  \<open>Go(f)\<close>: blocks in the send while the gate is full. The send, \<open>g.wg.Add(1)\<close> and the
  \<open>go\<close> statement follow each other without a blocking point and are one step of the
  caller.
\<close>

definition Go :: "subtask \<Rightarrow> sys \<Rightarrow> sys outcome" where
  "Go f s =
     (case sem s of
        None \<Rightarrow> Returns (spawn f (wg_Add s))
      | Some c \<Rightarrow>
          (case send c s of
             None \<Rightarrow> Blocks
           | Some s' \<Rightarrow> Returns (spawn f (wg_Add s'))))"

text \<open>\<open>TryGo(f)\<close>: the \<open>select\<close> takes its \<open>default\<close> branch when the send cannot proceed.\<close>

definition TryGo :: "subtask \<Rightarrow> sys \<Rightarrow> bool \<times> sys" where
  "TryGo f s =
     (case sem s of
        None \<Rightarrow> (True, spawn f (wg_Add s))
      | Some c \<Rightarrow>
          (case send c s of
             None \<Rightarrow> (False, s)
           | Some s' \<Rightarrow> (True, spawn f (wg_Add s'))))"

text \<open>
  \<open>SetLimit(n)\<close>. \<open>make(chan token, n)\<close> allocates a new channel; the element type has
  size 0, so every \<open>n \<ge> 0\<close> is accepted.
\<close>

definition SetLimit :: "int \<Rightarrow> sys \<Rightarrow> sys outcome" where
  "SetLimit n s =
     (if n < 0 then Returns (s\<lparr>sem := None\<rparr>)
      else if sem_len s \<noteq> 0 then Panics
      else Returns (s\<lparr>sem := Some (nchans s),
                      chans := (chans s)(nchans s := \<lparr>cap = nat n, len = 0\<rparr>),
                      nchans := nchans s + 1\<rparr>))"

text \<open>
  \<open>Wait()\<close>: \<open>g.wg.Wait()\<close> blocks while the counter is not 0; then \<open>g.cancel()\<close> and
  \<open>return g.err\<close>. With the counter at 0 no goroutine of the group is left to run
  between these statements.
\<close>

definition Wait :: "sys \<Rightarrow> (goerror \<times> sys) outcome" where
  "Wait s = (if wg s = 0 then (let s' = cancel s in Returns (err s', s')) else Blocks)"

text \<open>\<open>g.errOnce.Do(func() { g.err = err; g.cancel() })\<close>.\<close>

definition errOnce_Do :: "goerror \<Rightarrow> sys \<Rightarrow> sys" where
  "errOnce_Do e s = (if errOnce s then s else (cancel (s\<lparr>err := e\<rparr>))\<lparr>errOnce := True\<rparr>)"

text \<open>
  One step of the goroutine \<open>i\<close>: the body \<open>func() { defer g.done(); if err := f(g.ctx);
  err != nil { g.errOnce.Do(...) } }\<close> followed by \<open>done()\<close>, that is
  \<open>if g.sem != nil { <-g.sem }; g.wg.Done()\<close>. A receive blocks on an empty channel;
  \<open>wg.Done()\<close> panics on a counter that would become negative. A finished goroutine and
  an index that names none have no step.
\<close>

definition set_pc :: "nat \<Rightarrow> pc \<Rightarrow> sys \<Rightarrow> sys" where
  "set_pc i p s = s\<lparr>pool := (pool s)[i := (pool s ! i)\<lparr>pc := p\<rparr>]\<rparr>"

definition step :: "nat \<Rightarrow> sys \<Rightarrow> sys outcome" where
  "step i s =
     (if length (pool s) \<le> i then Blocks
      else
        (case pc (pool s ! i) of
           Started \<Rightarrow>
             Returns (s\<lparr>pool := (pool s)[i := (pool s ! i)\<lparr>pc := Returned,
                                                          ret := task (pool s ! i) (cancelled s)\<rparr>]\<rparr>)
         | Returned \<Rightarrow>
             (case ret (pool s ! i) of
                None \<Rightarrow> Returns (set_pc i Deferred s)
              | Some e \<Rightarrow> Returns (set_pc i Deferred (errOnce_Do (Some e) s)))
         | Deferred \<Rightarrow>
             (case sem s of
                None \<Rightarrow> Returns (set_pc i Released s)
              | Some c \<Rightarrow> Returns (set_pc i (Receiving c) s))
         | Receiving c \<Rightarrow>
             (if len (chans s c) = 0 then Blocks
              else Returns (set_pc i Released
                     (s\<lparr>chans := (chans s)(c := (chans s c)\<lparr>len := len (chans s c) - 1\<rparr>)\<rparr>)))
         | Released \<Rightarrow>
             (if wg s = 0 then Panics
              else Returns (set_pc i Finished (s\<lparr>wg := wg s - 1\<rparr>)))
         | Finished \<Rightarrow> Blocks))"

subsection \<open>Schedules\<close>

text \<open>
  The events of a schedule. \<open>EvCancel\<close> is a call of the cancel function from outside
  the subtasks: the first statement of \<open>Cancel()\<close>, or the cancellation of the parent
  context, which cancels the derived one.
\<close>

datatype event =
    EvGo subtask
  | EvTryGo subtask
  | EvSetLimit int
  | EvWait
  | EvCancel
  | EvStep nat

fun exec :: "event \<Rightarrow> sys \<Rightarrow> sys outcome" where
  "exec (EvGo f) s = Go f s"
| "exec (EvTryGo f) s = Returns (snd (TryGo f s))"
| "exec (EvSetLimit n) s = SetLimit n s"
| "exec EvWait s = (case Wait s of Returns rs \<Rightarrow> Returns (snd rs) | Blocks \<Rightarrow> Blocks | Panics \<Rightarrow> Panics)"
| "exec EvCancel s = Returns (cancel s)"
| "exec (EvStep i) s = step i s"

fun run :: "event list \<Rightarrow> sys \<Rightarrow> sys outcome" where
  "run [] s = Returns s"
| "run (ev # evs) s =
     (case exec ev s of Returns s' \<Rightarrow> run evs s' | Blocks \<Rightarrow> Blocks | Panics \<Rightarrow> Panics)"

text \<open>
  \<open>Cancel()\<close>: \<open>g.cancel(); g.wg.Wait(); return g.err\<close>. The call blocks in the middle;
  \<open>env\<close> is what happens while it waits.
\<close>

definition Cancel :: "event list \<Rightarrow> sys \<Rightarrow> (goerror \<times> sys) outcome" where
  "Cancel env s =
     (case run env (cancel s) of
        Returns s' \<Rightarrow> (if wg s' = 0 then Returns (err s', s') else Blocks)
      | Blocks \<Rightarrow> Blocks
      | Panics \<Rightarrow> Panics)"

subsection \<open>Observations on states and schedules\<close>

text \<open>The goroutines that have not executed \<open>g.wg.Done()\<close>.\<close>

definition unfinished :: "sys \<Rightarrow> nat" where
  "unfinished s = length (filter (\<lambda>g. pc g \<noteq> Finished) (pool s))"

text \<open>Whether a goroutine is past the statement \<open>if err != nil { g.errOnce.Do(...) }\<close>.\<close>

fun passed :: "pc \<Rightarrow> bool" where
  "passed Started = False"
| "passed Returned = False"
| "passed _ = True"

text \<open>
  A goroutine is active from the \<open>go\<close> statement until it has left the gate in
  \<open>done()\<close>; \<open>active\<close> counts them.
\<close>

fun is_active :: "pc \<Rightarrow> bool" where
  "is_active Released = False"
| "is_active Finished = False"
| "is_active _ = True"

definition active :: "sys \<Rightarrow> nat" where
  "active s = length (filter (\<lambda>g. is_active (pc g)) (pool s))"

text \<open>
  The state of a gate of capacity \<open>k\<close> that was installed while no goroutine was
  active: the buffered tokens are those of the active goroutines, and whoever waits in
  \<open>done()\<close> waits on this channel.
\<close>

definition recv_on :: "nat \<Rightarrow> sys \<Rightarrow> bool" where
  "recv_on c s = (\<forall>g\<in>set (pool s). \<forall>c'. pc g = Receiving c' \<longrightarrow> c' = c)"

definition gate_ok :: "nat \<Rightarrow> nat \<Rightarrow> sys \<Rightarrow> bool" where
  "gate_ok k c s \<longleftrightarrow>
     sem s = Some c \<and> cap (chans s c) = k \<and> len (chans s c) = active s \<and> active s \<le> k \<and>
     recv_on c s"

definition is_SetLimit :: "event \<Rightarrow> bool" where
  "is_SetLimit ev = (case ev of EvSetLimit n \<Rightarrow> True | _ \<Rightarrow> False)"

text \<open>The first non-nil error of a list.\<close>

fun first_err :: "goerror list \<Rightarrow> goerror" where
  "first_err [] = None"
| "first_err (None # es) = first_err es"
| "first_err (Some e # es) = Some e"

text \<open>
  The errors that pass the statement \<open>if err != nil { g.errOnce.Do(...) }\<close> during a
  schedule, in the order in which they pass it.
\<close>

definition gate_pass :: "event \<Rightarrow> sys \<Rightarrow> goerror list" where
  "gate_pass ev s =
     (case ev of
        EvStep i \<Rightarrow>
          (if i < length (pool s) \<and> pc (pool s ! i) = Returned then [ret (pool s ! i)] else [])
      | _ \<Rightarrow> [])"

fun gate_log :: "event list \<Rightarrow> sys \<Rightarrow> goerror list" where
  "gate_log [] s = []"
| "gate_log (ev # evs) s =
     (case exec ev s of Returns s' \<Rightarrow> gate_pass ev s @ gate_log evs s' | _ \<Rightarrow> [])"

text \<open>The subtasks that a schedule starts, in submission order.\<close>

definition started :: "event \<Rightarrow> sys \<Rightarrow> subtask list" where
  "started ev s =
     (case ev of
        EvGo f \<Rightarrow> [f]
      | EvTryGo f \<Rightarrow> (if fst (TryGo f s) then [f] else [])
      | _ \<Rightarrow> [])"

fun submitted :: "event list \<Rightarrow> sys \<Rightarrow> subtask list" where
  "submitted [] s = []"
| "submitted (ev # evs) s =
     (case exec ev s of Returns s' \<Rightarrow> started ev s @ submitted evs s' | _ \<Rightarrow> [])"

text \<open>
  \<open>once_fires\<close>: the step runs the function given to \<open>g.errOnce.Do\<close>, the only place
  where a goroutine assigns \<open>g.err\<close> and calls \<open>g.cancel()\<close>. \<open>once_runs\<close> counts
  these steps in a schedule.
\<close>

definition once_fires :: "event \<Rightarrow> sys \<Rightarrow> bool" where
  "once_fires ev s =
     (case ev of
        EvStep i \<Rightarrow>
          i < length (pool s) \<and> pc (pool s ! i) = Returned \<and> ret (pool s ! i) \<noteq> None \<and> \<not> errOnce s
      | _ \<Rightarrow> False)"

fun once_runs :: "event list \<Rightarrow> sys \<Rightarrow> nat" where
  "once_runs [] s = 0"
| "once_runs (ev # evs) s =
     (case exec ev s of
        Returns s' \<Rightarrow> (if once_fires ev s then 1 else 0) + once_runs evs s'
      | _ \<Rightarrow> 0)"

text \<open>The errors of the goroutines that are past the once-gate.\<close>

definition gated :: "sys \<Rightarrow> goerror multiset" where
  "gated s = mset (map ret (filter (\<lambda>g. passed (pc g)) (pool s)))"

text \<open>What a goroutine has returned is a value of its subtask.\<close>

definition ret_ok :: "sys \<Rightarrow> bool" where
  "ret_ok s = (\<forall>g\<in>set (pool s). pc g \<noteq> Started \<longrightarrow> (\<exists>b. ret g = task g b))"

text \<open>
  A subtask that returns a fixed error, and the error of such a subtask; a subtask that
  reports the cancellation it observes, as \<open>fakeSearch\<close> in the tests does with
  \<open>ctx.Err()\<close>.
\<close>

definition fixed :: "goerror \<Rightarrow> subtask" where
  "fixed e = (\<lambda>_. e)"

definition fixed_error :: "subtask \<Rightarrow> goerror" where
  "fixed_error f = f False"

definition on_cancel :: "string \<Rightarrow> subtask" where
  "on_cancel e = (\<lambda>c. if c then Some e else None)"

text \<open>A call made after a schedule, and the state a schedule leads to.\<close>

definition after :: "event list \<Rightarrow> sys \<Rightarrow> (sys \<Rightarrow> 'a outcome) \<Rightarrow> 'a outcome" where
  "after evs s call = (case run evs s of Returns s' \<Rightarrow> call s' | Blocks \<Rightarrow> Blocks | Panics \<Rightarrow> Panics)"

definition state_after :: "event list \<Rightarrow> sys \<Rightarrow> sys" where
  "state_after evs s = (case run evs s of Returns s' \<Rightarrow> s' | _ \<Rightarrow> s)"

text \<open>
  Two failing subtasks, the second of which runs to its end before the first starts.
\<close>

definition two_failures :: "event list" where
  "two_failures =
     [EvGo (fixed (Some ''e1'')), EvGo (fixed (Some ''e2'')),
      EvStep 1, EvStep 1, EvStep 1, EvStep 1, EvStep 0, EvStep 0, EvStep 0, EvStep 0]"

text \<open>
  A subtask submitted without limit, then \<open>SetLimit(0)\<close>, then the subtask runs up to
  the receive in \<open>done()\<close>.
\<close>

definition late_limit :: "event list" where
  "late_limit = [EvGo (fixed None), EvSetLimit 0, EvStep 0, EvStep 0, EvStep 0]"

text \<open>The equations that evaluate the operations on a concrete state.\<close>

lemmas eval_defs = New_def cancel_def Done_def sem_len_def send_def wg_Add_def spawn_def Go_def
  TryGo_def SetLimit_def Wait_def errOnce_Do_def set_pc_def step_def Cancel_def Let_def
  after_def state_after_def fixed_def

section \<open>Invariants of schedules\<close>

subsection \<open>Lists and sends\<close>

lemma run_Cons_Returns:
  "run (ev # evs) s = Returns t \<longleftrightarrow> (\<exists>s'. exec ev s = Returns s' \<and> run evs s' = Returns t)"
  by (cases "exec ev s") auto


lemma filter_update_count:
  "i < length xs \<Longrightarrow>
   length (filter P (xs[i := y])) + (if P (xs ! i) then 1 else 0) =
   length (filter P xs) + (if P y then 1 else 0)"
proof (induction xs arbitrary: i)
  case Nil
  then show ?case by simp
next
  case (Cons x xs)
  then show ?case by (cases i) auto
qed

lemma handoff_update:
  "handoff c p = Some p' \<Longrightarrow>
   \<exists>i < length p. pc (p ! i) = Receiving c \<and> p' = p[i := (p ! i)\<lparr>pc := Released\<rparr>]"
proof (induction p arbitrary: p')
  case Nil
  then show ?case by simp
next
  case (Cons g gs)
  show ?case
  proof (cases "pc g = Receiving c")
    case True
    with Cons.prems have "p' = (g # gs)[0 := ((g # gs) ! 0)\<lparr>pc := Released\<rparr>]" by auto
    with True show ?thesis by (intro exI[of _ 0]) simp
  next
    case False
    with Cons.prems obtain q where q: "handoff c gs = Some q" "p' = g # q" by auto
    from Cons.IH[OF q(1)] obtain i where "i < length gs" "pc (gs ! i) = Receiving c"
      "q = gs[i := (gs ! i)\<lparr>pc := Released\<rparr>]" by blast
    with q(2) show ?thesis by (intro exI[of _ "Suc i"]) simp
  qed
qed

lemma handoff_None: "(\<forall>g\<in>set p. pc g \<noteq> Receiving c) \<Longrightarrow> handoff c p = None"
  by (induction p) auto

lemma send_cases:
  assumes "send c s = Some s'"
  obtains (buffer) "len (chans s c) < cap (chans s c)"
      "s' = s\<lparr>chans := (chans s)(c := (chans s c)\<lparr>len := len (chans s c) + 1\<rparr>)\<rparr>"
  | (rendezvous) i where "cap (chans s c) = 0" "i < length (pool s)"
      "pc (pool s ! i) = Receiving c" "s' = set_pc i Released s"
proof (cases "len (chans s c) < cap (chans s c)")
  case True
  with assms show ?thesis by (intro buffer) (auto simp: send_def Let_def)
next
  case False
  with assms obtain p where p: "cap (chans s c) = 0" "handoff c (pool s) = Some p" "s' = s\<lparr>pool := p\<rparr>"
    by (auto simp: send_def Let_def split: if_splits)
  from handoff_update[OF p(2)] obtain i where "i < length (pool s)" "pc (pool s ! i) = Receiving c"
    "p = (pool s)[i := (pool s ! i)\<lparr>pc := Released\<rparr>]" by blast
  then show ?thesis using p by (intro rendezvous[of i]) (simp_all add: set_pc_def)
qed

lemma unfinished_send: "send c s = Some s' \<Longrightarrow> unfinished s' = unfinished s \<and> wg s' = wg s"
proof (erule send_cases)
  fix i assume a: "i < length (pool s)" "pc (pool s ! i) = Receiving c" "s' = set_pc i Released s"
  from filter_update_count[OF a(1), of "\<lambda>g. pc g \<noteq> Finished" "(pool s ! i)\<lparr>pc := Released\<rparr>"] a
  show "unfinished s' = unfinished s \<and> wg s' = wg s"
    by (simp add: unfinished_def set_pc_def)
qed (simp add: unfinished_def)

lemma unfinished_set_pc:
  "i < length (pool s) \<Longrightarrow>
   unfinished (set_pc i p s) + (if pc (pool s ! i) \<noteq> Finished then 1 else 0) =
   unfinished s + (if p \<noteq> Finished then 1 else 0)"
  using filter_update_count[of i "pool s" "\<lambda>g. pc g \<noteq> Finished" "(pool s ! i)\<lparr>pc := p\<rparr>"]
  by (simp add: unfinished_def set_pc_def)

lemma wg_set_pc [simp]: "wg (set_pc i p s) = wg s"
  by (simp add: set_pc_def)

lemma wg_errOnce_Do [simp]: "wg (errOnce_Do e s) = wg s"
  by (simp add: errOnce_Do_def cancel_def)

lemma pool_errOnce_Do [simp]: "pool (errOnce_Do e s) = pool s"
  by (simp add: errOnce_Do_def cancel_def)

lemma unfinished_errOnce_Do [simp]: "unfinished (errOnce_Do e s) = unfinished s"
  by (simp add: unfinished_def)

lemma wg_step:
  assumes "step i s = Returns s'" "wg s = unfinished s"
  shows "wg s' = unfinished s'"
proof -
  from assms(1) have i: "i < length (pool s)" by (auto simp: step_def split: if_splits)
  show ?thesis
  proof (cases "pc (pool s ! i)")
    case Started
    with assms i filter_update_count[OF i, of "\<lambda>g. pc g \<noteq> Finished" "(pool s ! i)\<lparr>pc := Returned, ret := task (pool s ! i) (cancelled s)\<rparr>"]
    show ?thesis by (auto simp: step_def unfinished_def)
  next
    case Returned
    with assms i unfinished_set_pc[OF i, of Deferred] 
      unfinished_set_pc[of i "errOnce_Do (ret (pool s ! i)) s" Deferred]
    show ?thesis by (auto simp: step_def split: option.splits)
  next
    case Deferred
    with assms i unfinished_set_pc[OF i, of Released] unfinished_set_pc[OF i, of "Receiving (the (sem s))"]
    show ?thesis by (auto simp: step_def split: option.splits)
  next
    case (Receiving c)
    with assms i unfinished_set_pc[of i "s\<lparr>chans := (chans s)(c := (chans s c)\<lparr>len := len (chans s c) - 1\<rparr>)\<rparr>" Released]
    show ?thesis by (auto simp: step_def unfinished_def split: if_splits)
  next
    case Released
    with assms i unfinished_set_pc[of i "s\<lparr>wg := wg s - 1\<rparr>" Finished]
    show ?thesis by (auto simp: step_def unfinished_def split: if_splits)
  next
    case Finished
    with assms i show ?thesis by (auto simp: step_def)
  qed
qed

lemmas field_defs = cancel_def send_def wg_Add_def spawn_def Go_def TryGo_def
  SetLimit_def Wait_def errOnce_Do_def set_pc_def step_def Let_def

lemma wg_exec:
  assumes "exec ev s = Returns s'" "wg s = unfinished s"
  shows "wg s' = unfinished s'"
proof (cases ev)
  case (EvGo f)
  show ?thesis
  proof (cases "sem s")
    case None
    with EvGo assms show ?thesis by (auto simp: Go_def wg_Add_def spawn_def unfinished_def)
  next
    case (Some c)
    with EvGo assms obtain t where t: "send c s = Some t" "s' = spawn f (wg_Add t)"
      by (auto simp: Go_def split: option.splits)
    from unfinished_send[OF t(1)] assms(2) t(2) show ?thesis
      by (simp add: wg_Add_def spawn_def unfinished_def)
  qed
next
  case (EvTryGo f)
  show ?thesis
  proof (cases "sem s")
    case None
    with EvTryGo assms show ?thesis by (auto simp: TryGo_def wg_Add_def spawn_def unfinished_def)
  next
    case (Some c)
    show ?thesis
    proof (cases "send c s")
      case None
      with Some EvTryGo assms show ?thesis by (auto simp: TryGo_def)
    next
      case (Some t)
      with \<open>sem s = Some c\<close> EvTryGo assms have "s' = spawn f (wg_Add t)" by (auto simp: TryGo_def)
      with unfinished_send[OF Some] assms(2) show ?thesis
        by (simp add: wg_Add_def spawn_def unfinished_def)
    qed
  qed
next
  case (EvSetLimit n)
  with assms show ?thesis by (auto simp: SetLimit_def unfinished_def split: if_splits)
next
  case EvWait
  with assms show ?thesis by (auto simp: Wait_def cancel_def unfinished_def Let_def split: if_splits)
next
  case EvCancel
  with assms show ?thesis by (auto simp: cancel_def unfinished_def)
next
  case (EvStep i)
  with assms wg_step show ?thesis by simp
qed

lemma run_invariant:
  assumes "run evs s = Returns s'" "I s"
    and "\<And>ev t t'. ev \<in> set evs \<Longrightarrow> I t \<Longrightarrow> exec ev t = Returns t' \<Longrightarrow> I t'"
  shows "I s'"
  using assms
proof (induction evs arbitrary: s)
  case Nil
  then show ?case by simp
next
  case (Cons ev evs)
  from Cons.prems(1) obtain t where t: "exec ev s = Returns t" "run evs t = Returns s'"
    unfolding run_Cons_Returns by blast
  have "I t" using Cons.prems(3)[of ev s t] Cons.prems(2) t(1) by simp
  show ?case
  proof (rule Cons.IH[OF t(2) \<open>I t\<close>])
    fix ev' u u' assume "ev' \<in> set evs" "I u" "exec ev' u = Returns u'"
    then show "I u'" using Cons.prems(3)[of ev' u u'] by simp
  qed
qed

lemma wg_run:
  assumes "run evs s = Returns s'" "wg s = unfinished s"
  shows "wg s' = unfinished s'"
  using assms(1,2) wg_exec by (rule run_invariant[where I = "\<lambda>s. wg s = unfinished s"])

lemma unfinished_zero: "unfinished s = 0 \<longleftrightarrow> (\<forall>g\<in>set (pool s). pc g = Finished)"
  by (auto simp: unfinished_def filter_empty_conv)

subsection \<open>The first error\<close>

lemma first_err_append:
  "first_err (xs @ ys) = (case first_err xs of None \<Rightarrow> first_err ys | Some e \<Rightarrow> Some e)"
  by (induction xs rule: first_err.induct) auto

lemma first_err_None: "first_err xs = None \<longleftrightarrow> (\<forall>e\<in>set xs. e = None)"
  by (induction xs rule: first_err.induct) auto

lemma err_step:
  assumes "step i s = Returns s'"
  shows "errOnce s' = (errOnce s \<or> once_fires (EvStep i) s)"
    and "err s' = (if once_fires (EvStep i) s then ret (pool s ! i) else err s)"
  using assms
  by (auto simp: step_def set_pc_def errOnce_Do_def cancel_def once_fires_def
      split: if_splits pc.splits option.splits)

lemma err_exec:
  assumes "exec ev s = Returns s'"
  shows "errOnce s' = (errOnce s \<or> once_fires ev s)"
    and "err s' = (if once_fires ev s then first_err (gate_pass ev s) else err s)"
proof -
  show "errOnce s' = (errOnce s \<or> once_fires ev s)"
  proof (cases ev)
    case (EvStep i)
    with assms err_step(1)[of i s s'] show ?thesis by simp
  qed (use assms in \<open>auto simp: field_defs once_fires_def split: option.splits if_splits\<close>)
  show "err s' = (if once_fires ev s then first_err (gate_pass ev s) else err s)"
  proof (cases ev)
    case (EvStep i)
    with assms err_step(2)[of i s s'] show ?thesis
      by (auto simp: once_fires_def gate_pass_def)
  qed (use assms in \<open>auto simp: field_defs once_fires_def split: option.splits if_splits\<close>)
qed

lemma once_fires_gate_pass:
  "once_fires ev s \<Longrightarrow> first_err (gate_pass ev s) \<noteq> None"
  by (auto simp: once_fires_def gate_pass_def split: event.splits)

lemma gate_pass_no_fire:
  "\<not> once_fires ev s \<Longrightarrow> \<not> errOnce s \<Longrightarrow> first_err (gate_pass ev s) = None"
  by (auto simp: once_fires_def gate_pass_def split: event.splits)

lemma err_run:
  assumes "run evs s = Returns s'" "errOnce s \<longleftrightarrow> err s \<noteq> None"
  shows "(errOnce s' \<longleftrightarrow> err s' \<noteq> None) \<and>
         err s' = (case err s of Some e \<Rightarrow> Some e | None \<Rightarrow> first_err (gate_log evs s))"
  using assms
proof (induction evs arbitrary: s)
  case Nil
  then show ?case by (auto split: option.splits)
next
  case (Cons ev evs)
  from Cons.prems(1) obtain t where t: "exec ev s = Returns t" "run evs t = Returns s'"
    unfolding run_Cons_Returns by blast
  note e = err_exec[OF t(1)]
  have A: "errOnce t \<longleftrightarrow> err t \<noteq> None"
    using e Cons.prems(2) once_fires_gate_pass[of ev s] by auto
  note IH = Cons.IH[OF t(2) A]
  show ?case
  proof (cases "once_fires ev s")
    case True
    then have "\<not> errOnce s" by (auto simp: once_fires_def split: event.splits)
    with Cons.prems(2) have "err s = None" by simp
    moreover from True e have "err t = first_err (gate_pass ev s)" by simp
    moreover from True have "first_err (gate_pass ev s) \<noteq> None" by (rule once_fires_gate_pass)
    ultimately show ?thesis using IH t(1)
      by (auto simp: first_err_append split: option.splits)
  next
    case False
    with e have "err t = err s" by simp
    moreover have "err s = None \<Longrightarrow> first_err (gate_pass ev s) = None"
      using gate_pass_no_fire[OF False] Cons.prems(2) by simp
    ultimately show ?thesis using IH t(1)
      by (auto simp: first_err_append split: option.splits)
  qed
qed

lemma once_runs_bound:
  assumes "run evs s = Returns s'"
  shows "once_runs evs s \<le> (if errOnce s then 0 else 1) \<and>
         (errOnce s \<longrightarrow> errOnce s' \<and> err s' = err s)"
  using assms
proof (induction evs arbitrary: s)
  case Nil
  then show ?case by simp
next
  case (Cons ev evs)
  from Cons.prems(1) obtain t where t: "exec ev s = Returns t" "run evs t = Returns s'"
    unfolding run_Cons_Returns by blast
  note e = err_exec[OF t(1)]
  note IH = Cons.IH[OF t(2)]
  have nf: "errOnce s \<Longrightarrow> \<not> once_fires ev s"
    by (auto simp: once_fires_def split: event.splits)
  show ?case using IH e t(1) nf by (cases "once_fires ev s") auto
qed

subsection \<open>Every subtask passes the once-gate once\<close>

lemma mset_filter_update:
  "i < length xs \<Longrightarrow>
   mset (map f (filter P (xs[i := y]))) + (if P (xs ! i) then {#f (xs ! i)#} else {#}) =
   mset (map f (filter P xs)) + (if P y then {#f y#} else {#})"
proof (induction xs arbitrary: i)
  case Nil
  then show ?case by simp
next
  case (Cons x xs)
  show ?case
  proof (cases i)
    case 0
    then show ?thesis by simp
  next
    case (Suc j)
    with Cons.prems have "j < length xs" by simp
    note IH = Cons.IH[OF this]
    let ?A = "if P x then {#f x#} else {#}"
    have 1: "mset (map f (filter P ((x # xs)[i := y]))) = ?A + mset (map f (filter P (xs[j := y])))"
      using Suc by simp
    have 2: "mset (map f (filter P (x # xs))) = ?A + mset (map f (filter P xs))"
      by simp
    have 3: "(x # xs) ! i = xs ! j" using Suc by simp
    show ?thesis unfolding 1 2 3 union_assoc IH ..
  qed
qed

lemma gated_set_pc:
  "i < length (pool s) \<Longrightarrow>
   gated (set_pc i p s) + (if passed (pc (pool s ! i)) then {#ret (pool s ! i)#} else {#}) =
   gated s + (if passed p then {#ret (pool s ! i)#} else {#})"
  using mset_filter_update[of i "pool s" ret "\<lambda>g. passed (pc g)" "(pool s ! i)\<lparr>pc := p\<rparr>"]
  by (simp add: gated_def set_pc_def)

lemma gated_send: "send c s = Some s' \<Longrightarrow> gated s' = gated s"
proof (erule send_cases)
  fix i assume a: "i < length (pool s)" "pc (pool s ! i) = Receiving c" "s' = set_pc i Released s"
  from gated_set_pc[OF a(1), of Released] a show "gated s' = gated s" by simp
qed (simp add: gated_def)

lemma gated_spawn [simp]: "gated (spawn f s) = gated s"
  by (simp add: gated_def spawn_def)

lemma gated_wg_Add [simp]: "gated (wg_Add s) = gated s"
  by (simp add: gated_def wg_Add_def)

lemma gated_errOnce_Do [simp]: "gated (errOnce_Do e s) = gated s"
  by (simp add: gated_def)

lemma gated_step:
  assumes "step i s = Returns s'"
  shows "gated s' = gated s + mset (gate_pass (EvStep i) s)"
proof -
  from assms have i: "i < length (pool s)" by (auto simp: step_def split: if_splits)
  show ?thesis
  proof (cases "pc (pool s ! i)")
    case Started
    with assms i mset_filter_update[OF i, of ret "\<lambda>g. passed (pc g)"
        "(pool s ! i)\<lparr>pc := Returned, ret := task (pool s ! i) (cancelled s)\<rparr>"]
    show ?thesis by (auto simp: step_def gated_def gate_pass_def)
  next
    case Returned
    with assms i gated_set_pc[OF i, of Deferred]
      gated_set_pc[of i "errOnce_Do (ret (pool s ! i)) s" Deferred]
    show ?thesis by (auto simp: step_def gate_pass_def split: option.splits)
  next
    case Deferred
    with assms i gated_set_pc[OF i, of Released] gated_set_pc[OF i, of "Receiving (the (sem s))"]
    show ?thesis by (auto simp: step_def gate_pass_def split: option.splits)
  next
    case (Receiving c)
    with assms i gated_set_pc[of i "s\<lparr>chans := (chans s)(c := (chans s c)\<lparr>len := len (chans s c) - 1\<rparr>)\<rparr>" Released]
    show ?thesis by (auto simp: step_def gated_def gate_pass_def split: if_splits)
  next
    case Released
    with assms i gated_set_pc[of i "s\<lparr>wg := wg s - 1\<rparr>" Finished]
    show ?thesis by (auto simp: step_def gated_def gate_pass_def split: if_splits)
  next
    case Finished
    with assms i show ?thesis by (auto simp: step_def)
  qed
qed

lemma gated_exec:
  assumes "exec ev s = Returns s'"
  shows "gated s' = gated s + mset (gate_pass ev s)"
proof (cases ev)
  case (EvGo f)
  with assms gated_send show ?thesis
    by (auto simp: Go_def gate_pass_def split: option.splits)
next
  case (EvTryGo f)
  with assms gated_send show ?thesis
    by (auto simp: TryGo_def gate_pass_def split: option.splits)
next
  case (EvSetLimit n)
  with assms show ?thesis by (auto simp: SetLimit_def gated_def gate_pass_def split: if_splits)
next
  case EvWait
  with assms show ?thesis by (auto simp: Wait_def cancel_def gated_def gate_pass_def Let_def split: if_splits)
next
  case EvCancel
  with assms show ?thesis by (auto simp: cancel_def gated_def gate_pass_def)
next
  case (EvStep i)
  with assms gated_step show ?thesis by simp
qed

lemma gated_run:
  "run evs s = Returns s' \<Longrightarrow> gated s' = gated s + mset (gate_log evs s)"
proof (induction evs arbitrary: s)
  case Nil
  then show ?case by simp
next
  case (Cons ev evs)
  from Cons.prems(1) obtain t where t: "exec ev s = Returns t" "run evs t = Returns s'"
    unfolding run_Cons_Returns by blast
  from Cons.IH[OF t(2)] gated_exec[OF t(1)] t(1) show ?case by simp
qed

lemma map_task_update: "map task (xs[i := (xs ! i)\<lparr>pc := p\<rparr>]) = map task xs"
  by (induction xs arbitrary: i) (auto split: nat.splits)

lemma map_task_update_ret: "map task (xs[i := (xs ! i)\<lparr>pc := p, ret := r\<rparr>]) = map task xs"
  by (induction xs arbitrary: i) (auto split: nat.splits)

lemma tasks_set_pc [simp]: "map task (pool (set_pc i p s)) = map task (pool s)"
  by (simp add: set_pc_def map_task_update)

lemma tasks_send: "send c s = Some s' \<Longrightarrow> map task (pool s') = map task (pool s)"
  by (erule send_cases) simp_all

lemma tasks_exec:
  assumes "exec ev s = Returns s'"
  shows "map task (pool s') = map task (pool s) @ started ev s"
proof (cases ev)
  case (EvGo f)
  with assms tasks_send show ?thesis
    by (auto simp: Go_def started_def spawn_def wg_Add_def split: option.splits)
next
  case (EvTryGo f)
  with assms tasks_send show ?thesis
    by (auto simp: TryGo_def started_def spawn_def wg_Add_def split: option.splits)
next
  case (EvSetLimit n)
  with assms show ?thesis by (auto simp: SetLimit_def started_def split: if_splits)
next
  case EvWait
  with assms show ?thesis by (auto simp: Wait_def cancel_def started_def Let_def split: if_splits)
next
  case EvCancel
  with assms show ?thesis by (auto simp: cancel_def started_def)
next
  case (EvStep i)
  with assms show ?thesis
    by (auto simp: step_def started_def map_task_update_ret split: if_splits pc.splits option.splits)
qed

lemma tasks_run:
  "run evs s = Returns s' \<Longrightarrow> map task (pool s') = map task (pool s) @ submitted evs s"
proof (induction evs arbitrary: s)
  case Nil
  then show ?case by simp
next
  case (Cons ev evs)
  from Cons.prems(1) obtain t where t: "exec ev s = Returns t" "run evs t = Returns s'"
    unfolding run_Cons_Returns by blast
  from Cons.IH[OF t(2)] tasks_exec[OF t(1)] t(1) show ?case by simp
qed

lemma ret_ok_update:
  assumes "ret_ok s" "i < length (pool s)" "pc g \<noteq> Started \<longrightarrow> (\<exists>b. ret g = task g b)"
  shows "ret_ok (s\<lparr>pool := (pool s)[i := g]\<rparr>)"
  using assms set_update_subset_insert[of "pool s" i g] by (auto simp: ret_ok_def)

lemma ret_ok_set_pc:
  assumes "ret_ok s" "i < length (pool s)" "pc (pool s ! i) \<noteq> Started"
  shows "ret_ok (set_pc i p s)"
  unfolding set_pc_def
proof (rule ret_ok_update[OF assms(1,2)])
  from assms have "\<exists>b. ret (pool s ! i) = task (pool s ! i) b" by (auto simp: ret_ok_def)
  then show "pc ((pool s ! i)\<lparr>pc := p\<rparr>) \<noteq> Started \<longrightarrow>
      (\<exists>b. ret ((pool s ! i)\<lparr>pc := p\<rparr>) = task ((pool s ! i)\<lparr>pc := p\<rparr>) b)" by simp
qed

lemma ret_ok_send: "send c s = Some s' \<Longrightarrow> ret_ok s \<Longrightarrow> ret_ok s'"
proof (erule send_cases)
  fix i assume "i < length (pool s)" "pc (pool s ! i) = Receiving c" "s' = set_pc i Released s" "ret_ok s"
  then show "ret_ok s'" using ret_ok_set_pc[of s i Released] by simp
qed (simp add: ret_ok_def)

lemma ret_ok_fields [simp]:
  "ret_ok (wg_Add s) = ret_ok s" "ret_ok (cancel s) = ret_ok s" "ret_ok (errOnce_Do e s) = ret_ok s"
  "ret_ok (s\<lparr>wg := w\<rparr>) = ret_ok s" "ret_ok (s\<lparr>chans := ch\<rparr>) = ret_ok s"
  by (simp_all add: ret_ok_def wg_Add_def cancel_def)

lemma ret_ok_spawn [simp]: "ret_ok (spawn f s) = ret_ok s"
  by (auto simp: ret_ok_def spawn_def)

lemma ret_ok_step:
  assumes "step i s = Returns s'" "ret_ok s"
  shows "ret_ok s'"
proof -
  from assms have i: "i < length (pool s)" by (auto simp: step_def split: if_splits)
  show ?thesis
  proof (cases "pc (pool s ! i)")
    case Started
    with assms i ret_ok_update[OF assms(2) i,
        of "(pool s ! i)\<lparr>pc := Returned, ret := task (pool s ! i) (cancelled s)\<rparr>"]
    show ?thesis by (auto simp: step_def)
  next
    case Returned
    with assms i ret_ok_set_pc[of s i Deferred] ret_ok_set_pc[of "errOnce_Do (ret (pool s ! i)) s" i Deferred]
    show ?thesis by (auto simp: step_def split: option.splits)
  next
    case Deferred
    with assms i ret_ok_set_pc[of s i] show ?thesis by (auto simp: step_def split: option.splits)
  next
    case (Receiving c)
    with assms i ret_ok_set_pc[of "s\<lparr>chans := (chans s)(c := (chans s c)\<lparr>len := len (chans s c) - 1\<rparr>)\<rparr>" i Released]
    show ?thesis by (auto simp: step_def split: if_splits)
  next
    case Released
    with assms i ret_ok_set_pc[of "s\<lparr>wg := wg s - 1\<rparr>" i Finished]
    show ?thesis by (auto simp: step_def split: if_splits)
  next
    case Finished
    with assms i show ?thesis by (auto simp: step_def)
  qed
qed

lemma ret_ok_exec:
  assumes "exec ev s = Returns s'" "ret_ok s"
  shows "ret_ok s'"
proof (cases ev)
  case (EvGo f)
  with assms ret_ok_send show ?thesis by (auto simp: Go_def split: option.splits)
next
  case (EvTryGo f)
  with assms ret_ok_send show ?thesis by (auto simp: TryGo_def split: option.splits)
next
  case (EvSetLimit n)
  with assms show ?thesis by (auto simp: SetLimit_def ret_ok_def split: if_splits)
next
  case EvWait
  with assms show ?thesis by (auto simp: Wait_def Let_def split: if_splits)
next
  case EvCancel
  with assms show ?thesis by auto
next
  case (EvStep i)
  with assms ret_ok_step show ?thesis by simp
qed

lemma ret_ok_run:
  assumes "run evs s = Returns s'" "ret_ok s"
  shows "ret_ok s'"
  using assms ret_ok_exec by (rule run_invariant[where I = ret_ok])

lemma New_facts [simp]:
  "pool (New p) = []" "wg (New p) = 0" "err (New p) = None" "errOnce (New p) = False"
  "sem (New p) = None" "cancelled (New p) = p"
  by (simp_all add: New_def)

lemma New_invs [simp]: "unfinished (New p) = 0" "gated (New p) = {#}" "ret_ok (New p)"
  by (simp_all add: unfinished_def gated_def ret_ok_def)

lemma Wait_Returns: "Wait s = Returns (r, s') \<longleftrightarrow> wg s = 0 \<and> r = err s \<and> s' = cancel s"
  by (auto simp: Wait_def Let_def cancel_def)

lemma all_finished_gated:
  assumes "\<forall>g\<in>set (pool s). pc g = Finished"
  shows "gated s = mset (map ret (pool s))"
proof -
  from assms have "filter (\<lambda>g. passed (pc g)) (pool s) = pool s" by (auto simp: filter_id_conv)
  then show ?thesis by (simp add: gated_def)
qed

lemma no_error_iff:
  assumes "run evs (New p) = Returns s" "wg s = 0"
  shows "err s = None \<longleftrightarrow> (\<forall>g\<in>set (pool s). ret g = None)"
proof -
  from wg_run[OF assms(1)] assms(2) have fin: "\<forall>g\<in>set (pool s). pc g = Finished"
    by (simp add: unfinished_zero)
  from gated_run[OF assms(1)] all_finished_gated[OF fin]
  have log: "mset (gate_log evs (New p)) = mset (map ret (pool s))" by simp
  from err_run[OF assms(1)] have "err s = first_err (gate_log evs (New p))" by simp
  then have "err s = None \<longleftrightarrow> (\<forall>e\<in>#mset (gate_log evs (New p)). e = None)"
    by (simp add: first_err_None)
  also have "\<dots> \<longleftrightarrow> (\<forall>g\<in>set (pool s). ret g = None)" unfolding log by auto
  finally show ?thesis .
qed


subsection \<open>The capacity gate\<close>

lemma active_set_pc:
  "i < length (pool s) \<Longrightarrow>
   active (set_pc i p s) + (if is_active (pc (pool s ! i)) then 1 else 0) =
   active s + (if is_active p then 1 else 0)"
  using filter_update_count[of i "pool s" "\<lambda>g. is_active (pc g)" "(pool s ! i)\<lparr>pc := p\<rparr>"]
  by (simp add: active_def set_pc_def)

lemma active_pos: "i < length (pool s) \<Longrightarrow> is_active (pc (pool s ! i)) \<Longrightarrow> 0 < active s"
  by (auto simp: active_def filter_empty_conv)

lemma recv_on_set_pc:
  "recv_on c s \<Longrightarrow> (\<forall>c'. p = Receiving c' \<longrightarrow> c' = c) \<Longrightarrow> recv_on c (set_pc i p s)"
  using set_update_subset_insert[of "pool s" i "(pool s ! i)\<lparr>pc := p\<rparr>"]
  by (auto simp: recv_on_def set_pc_def)

lemma gate_fields [simp]:
  "active (wg_Add s) = active s" "active (cancel s) = active s" "active (errOnce_Do e s) = active s"
  "active (s\<lparr>wg := w\<rparr>) = active s" "active (s\<lparr>chans := ch\<rparr>) = active s"
  "recv_on c (wg_Add s) = recv_on c s" "recv_on c (cancel s) = recv_on c s"
  "recv_on c (errOnce_Do e s) = recv_on c s"
  "recv_on c (s\<lparr>wg := w\<rparr>) = recv_on c s" "recv_on c (s\<lparr>chans := ch\<rparr>) = recv_on c s"
  by (simp_all add: active_def recv_on_def wg_Add_def cancel_def)

lemma gate_spawn [simp]:
  "active (spawn f s) = active s + 1" "recv_on c (spawn f s) = recv_on c s"
  by (auto simp: active_def recv_on_def spawn_def)

lemma group_fields [simp]:
  "sem (wg_Add s) = sem s" "sem (cancel s) = sem s" "sem (errOnce_Do e s) = sem s"
  "sem (spawn f s) = sem s" "sem (set_pc i p s) = sem s"
  "chans (wg_Add s) = chans s" "chans (cancel s) = chans s" "chans (errOnce_Do e s) = chans s"
  "chans (spawn f s) = chans s" "chans (set_pc i p s) = chans s"
  by (simp_all add: wg_Add_def cancel_def errOnce_Do_def spawn_def set_pc_def)

lemma gate_ok_send:
  assumes "gate_ok k c s"
  shows "send c s =
     (if active s < k then Some (s\<lparr>chans := (chans s)(c := (chans s c)\<lparr>len := len (chans s c) + 1\<rparr>)\<rparr>)
      else None)"
proof (cases "active s < k")
  case True
  with assms show ?thesis by (simp add: gate_ok_def send_def Let_def)
next
  case False
  with assms have full: "\<not> len (chans s c) < cap (chans s c)" by (simp add: gate_ok_def)
  have "handoff c (pool s) = None" if "cap (chans s c) = 0"
  proof (rule handoff_None, rule ballI)
    fix g assume g: "g \<in> set (pool s)"
    from that assms have "active s = 0" by (simp add: gate_ok_def)
    with g have "\<not> is_active (pc g)" by (auto simp: active_def filter_empty_conv)
    then show "pc g \<noteq> Receiving c" by auto
  qed
  with full False show ?thesis by (simp add: send_def Let_def)
qed

lemma gate_ok_start:
  assumes "gate_ok k c s" "active s < k"
  shows "gate_ok k c (spawn f (wg_Add (s\<lparr>chans := (chans s)(c := (chans s c)\<lparr>len := len (chans s c) + 1\<rparr>)\<rparr>)))"
  using assms by (simp add: gate_ok_def)

lemma gate_ok_step:
  assumes "step i s = Returns s'" "gate_ok k c s"
  shows "gate_ok k c s'"
proof -
  from assms have i: "i < length (pool s)" by (auto simp: step_def split: if_splits)
  show ?thesis
  proof (cases "pc (pool s ! i)")
    case Started
    with assms have s': "s' = s\<lparr>pool := (pool s)[i := (pool s ! i)\<lparr>pc := Returned, ret := task (pool s ! i) (cancelled s)\<rparr>]\<rparr>"
      using i by (auto simp: step_def)
    from Started filter_update_count[OF i, of "\<lambda>g. is_active (pc g)"
        "(pool s ! i)\<lparr>pc := Returned, ret := task (pool s ! i) (cancelled s)\<rparr>"]
    have a: "active s' = active s" by (simp add: active_def s')
    from assms(2) set_update_subset_insert[of "pool s" i "(pool s ! i)\<lparr>pc := Returned, ret := task (pool s ! i) (cancelled s)\<rparr>"]
    have "recv_on c s'" by (auto simp: recv_on_def gate_ok_def s')
    with a assms(2) show ?thesis by (simp add: gate_ok_def s')
  next
    case Returned
    with assms i obtain t where t: "s' = set_pc i Deferred t" "t = s \<or> t = errOnce_Do (ret (pool s ! i)) s"
      by (auto simp: step_def split: option.splits)
    then have pt: "pool t = pool s" by auto
    from active_set_pc[of i t Deferred] Returned i pt have "active s' = active t" by (simp add: t(1))
    moreover have "active t = active s" using t(2) by auto
    moreover have "recv_on c s'" unfolding t(1) using t(2) assms(2)
      by (intro recv_on_set_pc) (auto simp: gate_ok_def)
    moreover have "sem s' = sem s" "chans s' = chans s" using t by auto
    ultimately show ?thesis using assms(2) by (simp add: gate_ok_def)
  next
    case Deferred
    with assms i have s': "s' = set_pc i (Receiving c) s" by (auto simp: step_def gate_ok_def)
    from active_set_pc[OF i, of "Receiving c"] Deferred have "active s' = active s" by (simp add: s')
    moreover have "recv_on c s'" unfolding s' using assms(2)
      by (intro recv_on_set_pc) (auto simp: gate_ok_def)
    ultimately show ?thesis using assms(2) by (simp add: gate_ok_def s')
  next
    case (Receiving c')
    with assms(2) i have c': "c' = c" by (auto simp: gate_ok_def recv_on_def)
    let ?t = "s\<lparr>chans := (chans s)(c := (chans s c)\<lparr>len := len (chans s c) - 1\<rparr>)\<rparr>"
    from Receiving c' assms i have s': "s' = set_pc i Released ?t" and pos: "len (chans s c) \<noteq> 0"
      by (auto simp: step_def split: if_splits)
    from active_set_pc[of i ?t Released] Receiving i have "active s' + 1 = active s" by (simp add: s')
    moreover have "recv_on c s'" unfolding s' using assms(2)
      by (intro recv_on_set_pc) (auto simp: gate_ok_def)
    ultimately show ?thesis using assms(2) pos by (auto simp: gate_ok_def s')
  next
    case Released
    let ?t = "s\<lparr>wg := wg s - 1\<rparr>"
    from Released assms i have s': "s' = set_pc i Finished ?t"
      by (auto simp: step_def split: if_splits)
    from active_set_pc[of i ?t Finished] Released i have "active s' = active s" by (simp add: s')
    moreover have "recv_on c s'" unfolding s' using assms(2)
      by (intro recv_on_set_pc) (auto simp: gate_ok_def)
    ultimately show ?thesis using assms(2) by (auto simp: gate_ok_def s')
  next
    case Finished
    with assms i show ?thesis by (auto simp: step_def)
  qed
qed

lemma gate_ok_exec:
  assumes "exec ev s = Returns s'" "gate_ok k c s" "\<not> is_SetLimit ev"
  shows "gate_ok k c s'"
proof (cases ev)
  case (EvGo f)
  with assms gate_ok_send[OF assms(2)] gate_ok_start[OF assms(2)] show ?thesis
    by (auto simp: Go_def gate_ok_def split: option.splits if_splits)
next
  case (EvTryGo f)
  with assms gate_ok_send[OF assms(2)] gate_ok_start[OF assms(2)] show ?thesis
    by (auto simp: TryGo_def gate_ok_def split: option.splits if_splits)
next
  case (EvSetLimit n)
  with assms show ?thesis by (simp add: is_SetLimit_def)
next
  case EvWait
  with assms show ?thesis by (auto simp: Wait_def Let_def gate_ok_def split: if_splits)
next
  case EvCancel
  with assms show ?thesis by (auto simp: gate_ok_def)
next
  case (EvStep i)
  with assms gate_ok_step show ?thesis by simp
qed

lemma gate_ok_run:
  assumes "run evs s = Returns s'" "gate_ok k c s" "\<forall>ev\<in>set evs. \<not> is_SetLimit ev"
  shows "gate_ok k c s'"
  using assms(1,2)
proof (rule run_invariant[where I = "gate_ok k c"])
  fix ev t t' assume "ev \<in> set evs" "gate_ok k c t" "exec ev t = Returns t'"
  with assms(3) gate_ok_exec show "gate_ok k c t'" by blast
qed

lemma gate_ok_SetLimit:
  assumes "active s = 0" "SetLimit (int k) s = Returns s'"
  shows "gate_ok k (nchans s) s'"
proof -
  from assms(1) have "\<forall>g\<in>set (pool s). \<not> is_active (pc g)"
    by (auto simp: active_def filter_empty_conv)
  then have "recv_on (nchans s) s" by (auto simp: recv_on_def)
  with assms show ?thesis
    by (auto simp: SetLimit_def gate_ok_def active_def recv_on_def split: if_splits)
qed




lemma cancelled_exec:
  assumes "exec ev s = Returns s'" "cancelled s"
  shows "cancelled s'"
proof (cases ev)
  case (EvStep i)
  with assms show ?thesis
    by (auto simp: step_def set_pc_def errOnce_Do_def cancel_def split: if_splits pc.splits option.splits)
qed (use assms in \<open>auto simp: field_defs split: option.splits if_splits\<close>)

lemma cancelled_run:
  assumes "run evs s = Returns s'" "cancelled s"
  shows "cancelled s'"
  using assms cancelled_exec by (rule run_invariant[where I = cancelled])

lemma send_cancelled:
  "send c (s\<lparr>cancelled := b\<rparr>) = map_option (\<lambda>t. t\<lparr>cancelled := b\<rparr>) (send c s)"
  by (cases "handoff c (pool s)") (simp_all add: send_def Let_def)

lemma TryGo_started:
  assumes "TryGo f s = (True, s1)"
  shows "Go f s = Returns s1 \<and>
         (\<exists>t. s1 = spawn f (wg_Add t) \<and> length (pool t) = length (pool s) \<and>
              cancelled t = cancelled s \<and> err t = err s \<and> errOnce t = errOnce s)"
proof (cases "sem s")
  case None
  with assms show ?thesis by (auto simp: TryGo_def Go_def)
next
  case (Some c)
  with assms obtain t where t: "send c s = Some t" "s1 = spawn f (wg_Add t)"
    by (auto simp: TryGo_def split: option.splits)
  from t(1) have "length (pool t) = length (pool s) \<and> cancelled t = cancelled s \<and>
      err t = err s \<and> errOnce t = errOnce s"
    by (rule send_cases) (simp_all add: set_pc_def)
  with t Some show ?thesis by (auto simp: Go_def)
qed

section \<open>The claims\<close>

subsection \<open>C1: what Wait returns\<close>

text \<open>
  C1 says that \<open>Wait\<close> returns the error of the first subtask by submission order
  whose error is not nil. The goroutines race for the once-gate, so this fails: in
  \<open>two_failures\<close> the subtask submitted second records its error first.
\<close>

theorem Wait_submission_order_counterexample:
  "map_outcome fst (after two_failures (New False) Wait) = Returns (Some ''e2'') \<and>
   first_err (map fixed_error (submitted two_failures (New False))) = Some ''e1''"
  by (simp add: eval_defs gate_pass_def started_def fixed_error_def two_failures_def)

text \<open>
  C1, amended: for every schedule from a new group that starts subtasks with fixed
  errors, when \<open>Wait\<close> returns, it returns the first non-nil error in the order in which
  the subtasks pass the once-gate; every started subtask has passed it exactly once, so
  the log is a permutation of the submitted errors, and the result is nil exactly when
  every subtask returned nil (also when none was submitted).
\<close>

theorem Wait_first_to_complete:
  assumes "run evs (New p) = Returns s"
    and "Wait s = Returns (r, s')"
    and "\<forall>f\<in>set (submitted evs (New p)). f = fixed (fixed_error f)"
  shows "r = first_err (gate_log evs (New p)) \<and>
         mset (gate_log evs (New p)) = mset (map fixed_error (submitted evs (New p))) \<and>
         (r = None \<longleftrightarrow> (\<forall>f\<in>set (submitted evs (New p)). fixed_error f = None))"
proof -
  from assms(2) have w: "wg s = 0" "r = err s" by (simp_all add: Wait_Returns)
  from wg_run[OF assms(1)] w(1) have fin: "\<forall>g\<in>set (pool s). pc g = Finished"
    by (simp add: unfinished_zero)
  from err_run[OF assms(1)] w(2) have r: "r = first_err (gate_log evs (New p))" by simp
  from tasks_run[OF assms(1)] have tasks: "map task (pool s) = submitted evs (New p)" by simp
  from ret_ok_run[OF assms(1)] have ok: "ret_ok s" by simp
  have "ret g = fixed_error (task g)" if "g \<in> set (pool s)" for g
  proof -
    from that fin ok obtain b where b: "ret g = task g b" by (auto simp: ret_ok_def)
    from that have "task g \<in> set (map task (pool s))" by simp
    with tasks assms(3) have "task g = fixed (fixed_error (task g))" by simp
    then have "task g b = fixed_error (task g)" by (metis fixed_def)
    with b show ?thesis by simp
  qed
  then have "map ret (pool s) = map (\<lambda>g. fixed_error (task g)) (pool s)" by simp
  also have "\<dots> = map fixed_error (map task (pool s))" by (simp add: comp_def)
  finally have m: "map ret (pool s) = map fixed_error (submitted evs (New p))"
    using tasks by simp
  from gated_run[OF assms(1)] all_finished_gated[OF fin] m
  have log: "mset (gate_log evs (New p)) = mset (map fixed_error (submitted evs (New p)))"
    by simp
  have "r = None \<longleftrightarrow> (\<forall>e\<in>set (gate_log evs (New p)). e = None)"
    using r by (simp add: first_err_None)
  also have "\<dots> \<longleftrightarrow> (\<forall>e\<in>#mset (gate_log evs (New p)). e = None)" by simp
  also have "\<dots> \<longleftrightarrow> (\<forall>f\<in>set (submitted evs (New p)). fixed_error f = None)"
    unfolding log by auto
  finally show ?thesis using r log by simp
qed

theorem Wait_first_to_complete_witness:
  "run two_failures (New False) = Returns (state_after two_failures (New False)) \<and>
   Wait (state_after two_failures (New False)) =
     Returns (Some ''e2'', cancel (state_after two_failures (New False))) \<and>
   submitted two_failures (New False) = [fixed (Some ''e1''), fixed (Some ''e2'')] \<and>
   Some ''e2'' = first_err (gate_log two_failures (New False)) \<and>
   mset (gate_log two_failures (New False)) =
     mset (map fixed_error (submitted two_failures (New False)))"
proof -
  let ?s = "state_after two_failures (New False)"
  have 1: "run two_failures (New False) = Returns ?s"
    by (simp add: eval_defs gate_pass_def started_def fixed_error_def two_failures_def)
  have 2: "Wait ?s = Returns (Some ''e2'', cancel ?s)"
    by (simp add: eval_defs gate_pass_def started_def fixed_error_def two_failures_def)
  have 3: "\<forall>f\<in>set (submitted two_failures (New False)). f = fixed (fixed_error f)"
    by (simp add: eval_defs gate_pass_def started_def fixed_error_def two_failures_def)
  from Wait_first_to_complete[OF 1 2 3] show ?thesis
    by (simp add: eval_defs gate_pass_def started_def fixed_error_def two_failures_def)
qed

subsection \<open>C2: the first error is written once\<close>

text \<open>
  C2: in every schedule, from every state, the function given to \<open>errOnce.Do\<close> runs at
  most once; once \<open>errOnce\<close> is done it never runs again, whatever the later subtasks
  return, so \<open>err\<close> keeps its value and \<open>cancel\<close> is not called again by a subtask.
\<close>

theorem firstError_written_once:
  assumes "run evs s = Returns s'"
  shows "once_runs evs s \<le> 1 \<and>
         (errOnce s \<longrightarrow> once_runs evs s = 0 \<and> errOnce s' \<and> err s' = err s)"
  using once_runs_bound[OF assms] by (auto split: if_splits)

theorem firstError_written_once_witness:
  "run [EvGo (fixed (Some ''e2'')), EvStep 1, EvStep 1, EvStep 1, EvStep 1]
     (state_after [EvGo (fixed (Some ''e1'')), EvStep 0, EvStep 0] (New False)) =
   Returns (state_after [EvGo (fixed (Some ''e1'')), EvStep 0, EvStep 0,
                         EvGo (fixed (Some ''e2'')), EvStep 1, EvStep 1, EvStep 1, EvStep 1] (New False)) \<and>
   errOnce (state_after [EvGo (fixed (Some ''e1'')), EvStep 0, EvStep 0] (New False)) \<and>
   once_runs [EvGo (fixed (Some ''e2'')), EvStep 1, EvStep 1, EvStep 1, EvStep 1]
     (state_after [EvGo (fixed (Some ''e1'')), EvStep 0, EvStep 0] (New False)) = 0 \<and>
   err (state_after [EvGo (fixed (Some ''e1'')), EvStep 0, EvStep 0,
                     EvGo (fixed (Some ''e2'')), EvStep 1, EvStep 1, EvStep 1, EvStep 1] (New False)) =
     Some ''e1''"
proof -
  let ?evs = "[EvGo (fixed (Some ''e2'')), EvStep 1, EvStep 1, EvStep 1, EvStep 1]"
  let ?s = "state_after [EvGo (fixed (Some ''e1'')), EvStep 0, EvStep 0] (New False)"
  let ?s' = "state_after [EvGo (fixed (Some ''e1'')), EvStep 0, EvStep 0,
                          EvGo (fixed (Some ''e2'')), EvStep 1, EvStep 1, EvStep 1, EvStep 1] (New False)"
  have 1: "run ?evs ?s = Returns ?s'"
    by (simp add: eval_defs once_fires_def)
  from firstError_written_once[OF 1] show ?thesis
    by (simp add: eval_defs once_fires_def)
qed

subsection \<open>C3: SetLimit while subtasks run\<close>

text \<open>
  C3 says that \<open>SetLimit\<close> panics whenever a subtask is running, whatever its argument.
  It does not: with no limit configured there is no gate to read, and \<open>SetLimit(3)\<close>
  installs one while a subtask runs; with a limit configured and a subtask holding a
  slot, \<open>SetLimit(-1)\<close> removes the gate.
\<close>

theorem SetLimit_running_counterexample:
  "after [EvGo (fixed None)] (New False) (Returns \<circ> active) = Returns 1 \<and>
   map_outcome sem (after [EvGo (fixed None)] (New False) (SetLimit 3)) = Returns (Some 0) \<and>
   after [EvSetLimit 2, EvGo (fixed None)] (New False) (Returns \<circ> active) = Returns 1 \<and>
   map_outcome sem (after [EvSetLimit 2, EvGo (fixed None)] (New False) (SetLimit (- 1))) =
     Returns None"
  by (simp add: eval_defs active_def)

text \<open>
  C3, amended: \<open>SetLimit(n)\<close> panics exactly when \<open>n \<ge> 0\<close> and \<open>len(g.sem) \<noteq> 0\<close>. When
  the gate was installed while no subtask was active and has not been replaced since,
  \<open>len(g.sem)\<close> is the number of active subtasks, so the call panics exactly when
  \<open>n \<ge> 0\<close> and a subtask is active.
\<close>

theorem SetLimit_panics_iff:
  assumes "active s0 = 0"
    and "SetLimit (int k) s0 = Returns s1"
    and "run evs s1 = Returns s"
    and "\<forall>ev\<in>set evs. \<not> is_SetLimit ev"
  shows "(SetLimit n u = Panics \<longleftrightarrow> 0 \<le> n \<and> sem_len u \<noteq> 0) \<and>
         (SetLimit n s = Panics \<longleftrightarrow> 0 \<le> n \<and> active s \<noteq> 0)"
proof -
  from gate_ok_run[OF assms(3) gate_ok_SetLimit[OF assms(1,2)] assms(4)]
  have "sem_len s = active s" by (simp add: gate_ok_def sem_len_def)
  moreover have "SetLimit n v = Panics \<longleftrightarrow> 0 \<le> n \<and> sem_len v \<noteq> 0" for v
    by (auto simp: SetLimit_def)
  ultimately show ?thesis by simp
qed

theorem SetLimit_panics_iff_witness:
  "active (New False) = 0 \<and>
   SetLimit (int 2) (New False) = Returns (state_after [EvSetLimit 2] (New False)) \<and>
   run [EvGo (fixed None)] (state_after [EvSetLimit 2] (New False)) =
     Returns (state_after [EvSetLimit 2, EvGo (fixed None)] (New False)) \<and>
   \<not> is_SetLimit (EvGo (fixed None)) \<and>
   SetLimit 5 (state_after [EvSetLimit 2, EvGo (fixed None)] (New False)) = Panics"
proof -
  let ?mid = "state_after [EvSetLimit 2] (New False)"
  let ?s = "state_after [EvSetLimit 2, EvGo (fixed None)] (New False)"
  have 1: "active (New False) = 0"
    by (simp add: eval_defs active_def is_SetLimit_def)
  have 2: "SetLimit (int 2) (New False) = Returns ?mid"
    by (simp add: eval_defs active_def is_SetLimit_def)
  have 3: "run [EvGo (fixed None)] ?mid = Returns ?s"
    by (simp add: eval_defs active_def is_SetLimit_def)
  have 4: "\<forall>ev\<in>set [EvGo (fixed None)]. \<not> is_SetLimit ev"
    by (simp add: is_SetLimit_def)
  from SetLimit_panics_iff[OF 1 2 3 4, where n = 5] show ?thesis
    by (simp add: eval_defs active_def is_SetLimit_def)
qed

subsection \<open>C4: the limit 0\<close>

text \<open>
  C4 says that after \<open>SetLimit(0)\<close>, with no subtask holding a slot, every \<open>TryGo\<close>
  fails and every \<open>Go\<close> blocks. A channel of capacity 0 has no buffer: a send on it
  completes when a receiver waits. In \<open>late_limit\<close> a subtask was started without limit
  and holds no slot; after \<open>SetLimit(0)\<close> it waits in \<open><-g.sem\<close>, and the next \<open>TryGo\<close>
  hands it the token, returns true and starts its subtask; \<open>Go\<close> does not block.
\<close>

theorem limit_zero_counterexample:
  "after late_limit (New False) (Returns \<circ> sem) = Returns (Some 0) \<and>
   after late_limit (New False) (Returns \<circ> sem_len) = Returns 0 \<and>
   after late_limit (New False) (Returns \<circ> fst \<circ> TryGo (fixed None)) = Returns True \<and>
   after late_limit (New False) (Returns \<circ> wg \<circ> snd \<circ> TryGo (fixed None)) = Returns 2 \<and>
   map_outcome wg (after late_limit (New False) (Go (fixed None))) = Returns 2"
  by (simp add: eval_defs late_limit_def)

text \<open>
  C4, amended: after \<open>SetLimit(0)\<close> called while no subtask is active, and until
  \<open>SetLimit\<close> is called again, every \<open>TryGo\<close> returns false and leaves the group as it is
  (no subtask started, the pending count unchanged), and every \<open>Go\<close> blocks.
\<close>

theorem limit_zero_admits_nothing:
  assumes "active s0 = 0"
    and "SetLimit 0 s0 = Returns s1"
    and "run evs s1 = Returns s"
    and "\<forall>ev\<in>set evs. \<not> is_SetLimit ev"
  shows "TryGo f s = (False, s) \<and> Go f s = Blocks"
proof -
  from assms(2) have "SetLimit (int 0) s0 = Returns s1" by simp
  from gate_ok_run[OF assms(3) gate_ok_SetLimit[OF assms(1) this] assms(4)]
  have g: "gate_ok 0 (nchans s0) s" .
  from gate_ok_send[OF g] g show ?thesis
    by (simp add: TryGo_def Go_def gate_ok_def)
qed

theorem limit_zero_admits_nothing_witness:
  "active (New False) = 0 \<and>
   SetLimit 0 (New False) = Returns (state_after [EvSetLimit 0] (New False)) \<and>
   run [EvTryGo (fixed None), EvCancel] (state_after [EvSetLimit 0] (New False)) =
     Returns (state_after [EvSetLimit 0, EvTryGo (fixed None), EvCancel] (New False)) \<and>
   \<not> is_SetLimit (EvTryGo (fixed None)) \<and> \<not> is_SetLimit EvCancel \<and>
   fst (TryGo (fixed (Some ''e1''))
     (state_after [EvSetLimit 0, EvTryGo (fixed None), EvCancel] (New False))) = False \<and>
   Go (fixed (Some ''e1''))
     (state_after [EvSetLimit 0, EvTryGo (fixed None), EvCancel] (New False)) = Blocks"
proof -
  let ?mid = "state_after [EvSetLimit 0] (New False)"
  let ?s = "state_after [EvSetLimit 0, EvTryGo (fixed None), EvCancel] (New False)"
  have 1: "active (New False) = 0"
    by (simp add: eval_defs active_def is_SetLimit_def)
  have 2: "SetLimit 0 (New False) = Returns ?mid"
    by (simp add: eval_defs active_def is_SetLimit_def)
  have 3: "run [EvTryGo (fixed None), EvCancel] ?mid = Returns ?s"
    by (simp add: eval_defs active_def is_SetLimit_def)
  have 4: "\<forall>ev\<in>set [EvTryGo (fixed None), EvCancel]. \<not> is_SetLimit ev"
    by (simp add: is_SetLimit_def)
  from limit_zero_admits_nothing[OF 1 2 3 4, where f = "fixed (Some ''e1'')"]
  show ?thesis
    by (simp add: eval_defs active_def is_SetLimit_def)
qed

subsection \<open>C5: TryGo without limit\<close>

text \<open>
  C5: with no limit configured, \<open>TryGo(f)\<close> returns true and leaves the state that
  \<open>Go(f)\<close> leaves: the pending count is one more and the same goroutine is started, so
  what it does on failure is the same.
\<close>

theorem TryGo_unbounded_is_Go:
  assumes "sem s = None"
  shows "TryGo f s = (True, spawn f (wg_Add s)) \<and> Go f s = Returns (spawn f (wg_Add s)) \<and>
         wg (spawn f (wg_Add s)) = wg s + 1 \<and>
         pool (spawn f (wg_Add s)) = pool s @ [\<lparr>task = f, pc = Started, ret = None\<rparr>]"
  using assms by (simp add: TryGo_def Go_def spawn_def wg_Add_def)

theorem TryGo_unbounded_is_Go_witness:
  "sem (New False) = None \<and>
   fst (TryGo (fixed (Some ''e1'')) (New False)) = True \<and>
   Go (fixed (Some ''e1'')) (New False) = Returns (snd (TryGo (fixed (Some ''e1'')) (New False))) \<and>
   wg (snd (TryGo (fixed (Some ''e1'')) (New False))) = 1"
proof -
  have 1: "sem (New False) = None"
    by (simp add: eval_defs)
  from TryGo_unbounded_is_Go[OF 1, where f = "fixed (Some ''e1'')"] show ?thesis
    by (simp add: eval_defs)
qed

subsection \<open>C6: Wait\<close>

text \<open>
  C6: \<open>Wait\<close> blocks exactly while the pending count is not 0. When it returns, from a
  state that a new group has reached, every goroutine has finished, the context is
  cancelled and stays so (\<open>Done\<close> reads as fired, then and after every later schedule),
  and the result is \<open>err\<close>, which is nil exactly when every subtask returned nil.
\<close>

theorem Wait_joins_cancels_returns:
  assumes "run evs (New p) = Returns s"
    and "Wait s = Returns (r, s')"
    and "run evs' s' = Returns t"
  shows "(Wait u = Blocks \<longleftrightarrow> wg u \<noteq> 0) \<and>
         wg s = 0 \<and> list_all (\<lambda>g. pc g = Finished) (pool s) \<and>
         Done s' \<and> Done t \<and> r = err s \<and>
         (r = None \<longleftrightarrow> list_all (\<lambda>g. ret g = None) (pool s))"
proof -
  from assms(2) have w: "wg s = 0" "r = err s" "s' = cancel s" by (simp_all add: Wait_Returns)
  from wg_run[OF assms(1)] w(1) have fin: "\<forall>g\<in>set (pool s). pc g = Finished"
    by (simp add: unfinished_zero)
  have d: "cancelled s'" using w(3) by (simp add: cancel_def)
  from cancelled_run[OF assms(3) d] have "Done t" by (simp add: Done_def)
  moreover have "Wait u = Blocks \<longleftrightarrow> wg u \<noteq> 0" by (simp add: Wait_def Let_def)
  ultimately show ?thesis
    using w fin d no_error_iff[OF assms(1) w(1)] by (simp add: Done_def list_all_iff)
qed

theorem Wait_joins_cancels_returns_witness:
  "run [EvGo (fixed None), EvStep 0, EvStep 0, EvStep 0, EvStep 0] (New False) =
     Returns (state_after [EvGo (fixed None), EvStep 0, EvStep 0, EvStep 0, EvStep 0] (New False)) \<and>
   Wait (state_after [EvGo (fixed None), EvStep 0, EvStep 0, EvStep 0, EvStep 0] (New False)) =
     Returns (None, state_after [EvGo (fixed None), EvStep 0, EvStep 0, EvStep 0, EvStep 0, EvWait] (New False)) \<and>
   run [EvGo (fixed None)]
       (state_after [EvGo (fixed None), EvStep 0, EvStep 0, EvStep 0, EvStep 0, EvWait] (New False)) =
     Returns (state_after [EvGo (fixed None), EvStep 0, EvStep 0, EvStep 0, EvStep 0, EvWait,
                           EvGo (fixed None)] (New False)) \<and>
   Wait (state_after [EvGo (fixed None)] (New False)) = Blocks \<and>
   Done (state_after [EvGo (fixed None), EvStep 0, EvStep 0, EvStep 0, EvStep 0, EvWait] (New False)) \<and>
   Done (state_after [EvGo (fixed None), EvStep 0, EvStep 0, EvStep 0, EvStep 0, EvWait,
                      EvGo (fixed None)] (New False))"
proof -
  let ?evs = "[EvGo (fixed None), EvStep 0, EvStep 0, EvStep 0, EvStep 0]"
  let ?s = "state_after ?evs (New False)"
  let ?s' = "state_after [EvGo (fixed None), EvStep 0, EvStep 0, EvStep 0, EvStep 0, EvWait] (New False)"
  let ?t = "state_after [EvGo (fixed None), EvStep 0, EvStep 0, EvStep 0, EvStep 0, EvWait,
                         EvGo (fixed None)] (New False)"
  have 1: "run ?evs (New False) = Returns ?s"
    by (simp add: eval_defs)
  have 2: "Wait ?s = Returns (None, ?s')"
    by (simp add: eval_defs)
  have 3: "run [EvGo (fixed None)] ?s' = Returns ?t"
    by (simp add: eval_defs)
  from Wait_joins_cancels_returns[OF 1 2 3, where u = "state_after [EvGo (fixed None)] (New False)"]
  show ?thesis
    by (simp add: eval_defs)
qed

subsection \<open>C7: Cancel\<close>




subsection \<open>C8: a negative limit\<close>



subsection \<open>C9: the limit bounds the active subtasks\<close>



subsection \<open>C10: submission after cancellation\<close>

text \<open>
  C10: \<open>Go\<close> and \<open>TryGo\<close> do not read the context: with the context cancelled or not,
  they block, fail or start the subtask alike. A subtask started on a cancelled group
  runs with the cancelled context, and its error, if not nil, becomes \<open>err\<close> when
  \<open>errOnce\<close> is not done yet.
\<close>

theorem submission_ignores_cancellation:
  assumes "cancelled s"
    and "TryGo f s = (True, s1)"
  shows "Go f (s\<lparr>cancelled := b\<rparr>) = map_outcome (\<lambda>t. t\<lparr>cancelled := b\<rparr>) (Go f s) \<and>
         TryGo f (s\<lparr>cancelled := b\<rparr>) = map_prod id (\<lambda>t. t\<lparr>cancelled := b\<rparr>) (TryGo f s) \<and>
         Go f s = Returns s1 \<and>
         (\<exists>s2 s3. step (length (pool s)) s1 = Returns s2 \<and>
                  pc (pool s2 ! length (pool s)) = Returned \<and>
                  ret (pool s2 ! length (pool s)) = f True \<and>
                  step (length (pool s)) s2 = Returns s3 \<and>
                  err s3 = (if errOnce s then err s else case f True of None \<Rightarrow> err s | Some e \<Rightarrow> Some e))"
proof -
  have 1: "Go f (s\<lparr>cancelled := b\<rparr>) = map_outcome (\<lambda>t. t\<lparr>cancelled := b\<rparr>) (Go f s)"
    by (cases "send (the (sem s)) s")
       (auto simp: Go_def send_cancelled spawn_def wg_Add_def split: option.splits)
  have 2: "TryGo f (s\<lparr>cancelled := b\<rparr>) = map_prod id (\<lambda>t. t\<lparr>cancelled := b\<rparr>) (TryGo f s)"
    by (cases "send (the (sem s)) s")
       (auto simp: TryGo_def send_cancelled spawn_def wg_Add_def split: option.splits)
  from TryGo_started[OF assms(2)] obtain t where g: "Go f s = Returns s1"
    and t: "s1 = spawn f (wg_Add t)" "length (pool t) = length (pool s)"
      "cancelled t = cancelled s" "err t = err s" "errOnce t = errOnce s"
    by blast
  let ?n = "length (pool s)"
  let ?s2 = "s1\<lparr>pool := pool t @ [\<lparr>task = f, pc = Returned, ret = f True\<rparr>]\<rparr>"
  have p1: "pool s1 = pool t @ [\<lparr>task = f, pc = Started, ret = None\<rparr>]" "cancelled s1"
    using t assms(1) by (simp_all add: spawn_def wg_Add_def)
  have s2: "step ?n s1 = Returns ?s2"
    using p1 t(2) by (simp add: step_def nth_append list_update_append)
  have e1: "err s1 = err s" "errOnce s1 = errOnce s"
    using t by (simp_all add: spawn_def wg_Add_def)
  have "\<exists>s3. step ?n ?s2 = Returns s3 \<and>
      err s3 = (if errOnce s then err s else case f True of None \<Rightarrow> err s | Some e \<Rightarrow> Some e)"
    using t(2) e1
    by (cases "f True")
       (simp_all add: step_def nth_append list_update_append set_pc_def errOnce_Do_def cancel_def)
  with s2 t(2) 1 2 g show ?thesis by (auto simp: nth_append)
qed

theorem submission_ignores_cancellation_witness:
  "cancelled (state_after [EvWait] (New False)) \<and>
   fst (TryGo (on_cancel ''context canceled'') (state_after [EvWait] (New False))) = True \<and>
   Go (on_cancel ''context canceled'') (state_after [EvWait] (New False)) =
     Returns (snd (TryGo (on_cancel ''context canceled'') (state_after [EvWait] (New False)))) \<and>
   map_outcome err (after [EvWait, EvGo (on_cancel ''context canceled''), EvStep 0, EvStep 0] (New False) Returns) =
     Returns (Some ''context canceled'')"
proof -
  let ?s = "state_after [EvWait] (New False)"
  let ?f = "on_cancel ''context canceled''"
  have 1: "cancelled ?s"
    by (simp add: eval_defs on_cancel_def)
  have 2: "TryGo ?f ?s = (True, snd (TryGo ?f ?s))"
    by (simp add: eval_defs on_cancel_def)
  from submission_ignores_cancellation[OF 1 2, where b = False] show ?thesis
    by (simp add: eval_defs on_cancel_def)
qed
end
